theory Spec2Isabelle
  imports Main "HOL-Library.Word" "HOL-Library.Signed_Division"
begin

section \<open>Configuration (server.c, lines 19-34)\<close>

type_synonym u8 = "8 word"
type_synonym u32 = "32 word"

text \<open>A pointer into malloc'd memory; \<open>0\<close> is the null pointer.\<close>

type_synonym addr = nat

definition MAX_CLIENTS :: nat where "MAX_CLIENTS = 32"
definition MAX_PLAYERS :: nat where "MAX_PLAYERS = MAX_CLIENTS"
definition MAX_TAG_LEN :: nat where "MAX_TAG_LEN = 31"
definition MAX_AVATAR_W :: u32 where "MAX_AVATAR_W = 8"
definition MAX_AVATAR_H :: u32 where "MAX_AVATAR_H = 8"
definition RGBA_CHANNEL_COUNT :: nat where "RGBA_CHANNEL_COUNT = 4"
definition RGB_CHANNEL_COUNT :: nat where "RGB_CHANNEL_COUNT = 3"
definition WINDOW_W :: int where "WINDOW_W = 500"
definition WINDOW_H :: int where "WINDOW_H = 500"
definition MIN_PLAYER_X_POS :: int where "MIN_PLAYER_X_POS = 100"
definition MAX_PLAYER_X_POS :: int where "MAX_PLAYER_X_POS = 400"
definition MIN_PLAYER_Y_POS :: int where "MIN_PLAYER_Y_POS = 100"
definition MAX_PLAYER_Y_POS :: int where "MAX_PLAYER_Y_POS = 400"

section \<open>Undefined behaviour as a value\<close>

text \<open>
  The C code has no exceptions; what can go wrong is an access outside an object.
  Every such access is a branch of the model that returns \<open>Inl\<close> of the fault.
\<close>

datatype fault =
  Out_Of_Bounds_Read
| Out_Of_Bounds_Write
| Bad_Pointer
| Bad_Free

section \<open>The player record and the shared state (server.c, lines 51-82)\<close>

text \<open>
  \<open>Texture2D\<close> is raylib's struct (raylib.h, outside the repository): an unsigned id and
  four ints. The functions modelled here only ever zero it.
\<close>

record Texture2D =
  tex_id :: u32
  tex_width :: int
  tex_height :: int
  tex_mipmaps :: int
  tex_format :: int

record Player =
  ip :: u32
  player_id :: u32
  tag :: "u8 list"
  pos_x :: int
  pos_y :: int
  avatar :: addr
  w :: u32
  h :: u32
  ch :: u32
  connected :: bool
  tex :: Texture2D
  tex_inited :: bool
  tex_dirty :: bool

text \<open>What \<open>memset(new_player, 0, sizeof(*new_player))\<close> leaves in a row.\<close>

definition zero_Player :: Player where
  "zero_Player =
     \<lparr> ip = 0, player_id = 0, tag = replicate (MAX_TAG_LEN + 1) 0, pos_x = 0, pos_y = 0,
       avatar = 0, w = 0, h = 0, ch = 0, connected = False,
       tex = \<lparr> tex_id = 0, tex_width = 0, tex_height = 0, tex_mipmaps = 0, tex_format = 0 \<rparr>,
       tex_inited = False, tex_dirty = False \<rparr>"

text \<open>
  A pointer to a \<open>Player\<close>: the only \<open>Player\<close> objects of the program are the elements
  of \<open>g_players\<close>, so a non-null pointer is the index of a row.
\<close>

datatype player_ptr = NULL | Row nat

text \<open>
  The globals the table functions touch. \<open>g_players\<close> is a C array of \<open>MAX_PLAYERS\<close>
  elements: a function on indices, of which only those below \<open>MAX_PLAYERS\<close> are inside
  the object. \<open>heap\<close> holds the live malloc'd blocks with their bytes.
\<close>

record server =
  g_players :: "nat \<Rightarrow> Player"
  g_player_count :: nat
  g_next_player_id :: u32
  heap :: "addr \<Rightarrow> u8 list option"

text \<open>Static storage is zero-initialised; \<open>g_next_player_id\<close> starts at 1.\<close>

definition initial_server :: server where
  "initial_server =
     \<lparr> g_players = (\<lambda>_. zero_Player), g_player_count = 0, g_next_player_id = 1,
       heap = (\<lambda>_. None) \<rparr>"

section \<open>w-helper.c: irand\<close>

text \<open>
  \<open>return a + rand() % (b - a + 1);\<close> The value of \<open>rand()\<close> is the parameter \<open>r\<close>.
  C's \<open>%\<close> truncates towards zero: \<open>smod\<close>.
\<close>

definition irand :: "int \<Rightarrow> int \<Rightarrow> int \<Rightarrow> int" where
  "irand a b r = a + r smod (b - a + 1)"

section \<open>Player table operations (server.c, lines 93-152)\<close>

text \<open>
  The loop of \<open>find_player_by_ip\<close>, from index \<open>i\<close>: it reads \<open>g_players[i]\<close> for every
  \<open>i < g_player_count\<close>.
\<close>

function find_player_loop :: "server \<Rightarrow> u32 \<Rightarrow> nat \<Rightarrow> fault + player_ptr" where
  "find_player_loop s target_ip i =
     (if i < g_player_count s then
        (if MAX_PLAYERS \<le> i then Inl Out_Of_Bounds_Read
         else if ip (g_players s i) = target_ip then Inr (Row i)
         else find_player_loop s target_ip (Suc i))
      else Inr NULL)"
  by pat_completeness auto
termination
  by (relation "measure (\<lambda>(s, t, i). g_player_count s - i)") auto

declare find_player_loop.simps [simp del]

definition find_player_by_ip :: "server \<Rightarrow> u32 \<Rightarrow> fault + player_ptr" where
  "find_player_by_ip s target_ip = find_player_loop s target_ip 0"

text \<open>\<open>size_t new_player_index = g_player_count + 1;\<close>\<close>

definition new_player_index :: "server \<Rightarrow> nat" where
  "new_player_index s = g_player_count s + 1"

text \<open>The row written by the creating branch (lines 135-149).\<close>

definition new_player_row :: "server \<Rightarrow> u32 \<Rightarrow> int \<Rightarrow> int \<Rightarrow> Player" where
  "new_player_row s target_ip r1 r2 =
     zero_Player
       \<lparr> ip := target_ip,
         player_id := g_next_player_id s + 1,
         pos_x := irand MIN_PLAYER_X_POS (WINDOW_W - MAX_PLAYER_X_POS) r1,
         pos_y := irand MIN_PLAYER_Y_POS (WINDOW_H - MAX_PLAYER_Y_POS) r2,
         connected := False,
         tex_inited := False,
         tex_dirty := False \<rparr>"

text \<open>
  \<open>ensure_player\<close>; \<open>r1\<close> and \<open>r2\<close> are the two values \<open>rand()\<close> returns. The function
  assigns neither \<open>g_player_count\<close> nor \<open>g_next_player_id\<close>.
\<close>

definition ensure_player :: "server \<Rightarrow> u32 \<Rightarrow> int \<Rightarrow> int \<Rightarrow> fault + (player_ptr \<times> server)" where
  "ensure_player s target_ip r1 r2 =
     (case find_player_by_ip s target_ip of
        Inl f \<Rightarrow> Inl f
      | Inr (Row i) \<Rightarrow> Inr (Row i, s)
      | Inr NULL \<Rightarrow>
          if MAX_PLAYERS \<le> g_player_count s then Inr (NULL, s)
          else if MAX_PLAYERS \<le> new_player_index s then Inl Out_Of_Bounds_Write
          else Inr (Row (new_player_index s),
                    s\<lparr>g_players :=
                        (g_players s)(new_player_index s := new_player_row s target_ip r1 r2)\<rparr>))"

section \<open>Avatar update (server.c, lines 164-251)\<close>

text \<open>Reading and writing one byte of a buffer; outside the buffer is a fault.\<close>

definition load :: "u8 list \<Rightarrow> nat \<Rightarrow> fault + u8" where
  "load buf i = (if i < length buf then Inr (buf ! i) else Inl Out_Of_Bounds_Read)"

definition store :: "u8 list \<Rightarrow> nat \<Rightarrow> u8 \<Rightarrow> fault + u8 list" where
  "store buf i v = (if i < length buf then Inr (buf[i := v]) else Inl Out_Of_Bounds_Write)"

definition bind_fault :: "fault + 'a \<Rightarrow> ('a \<Rightarrow> fault + 'b) \<Rightarrow> fault + 'b" where
  "bind_fault m f = (case m of Inl e \<Rightarrow> Inl e | Inr x \<Rightarrow> f x)"

text \<open>
  Lines 209-231: the R, G, B, A of the pixel with flat index \<open>i\<close>, read from \<open>av_pixels\<close>
  according to the channel count.
\<close>

definition read_pixel :: "u8 list \<Rightarrow> u8 \<Rightarrow> nat \<Rightarrow> fault + (u8 \<times> u8 \<times> u8 \<times> u8)" where
  "read_pixel av_pixels av_ch i =
     (if unat av_ch = RGBA_CHANNEL_COUNT then
        bind_fault (load av_pixels (i * RGBA_CHANNEL_COUNT + 0)) (\<lambda>r.
        bind_fault (load av_pixels (i * RGBA_CHANNEL_COUNT + 1)) (\<lambda>g.
        bind_fault (load av_pixels (i * RGBA_CHANNEL_COUNT + 2)) (\<lambda>b.
        bind_fault (load av_pixels (i * RGBA_CHANNEL_COUNT + 3)) (\<lambda>a.
        Inr (r, g, b, a)))))
      else if unat av_ch = RGB_CHANNEL_COUNT then
        bind_fault (load av_pixels (i * RGB_CHANNEL_COUNT + 0)) (\<lambda>r.
        bind_fault (load av_pixels (i * RGB_CHANNEL_COUNT + 1)) (\<lambda>g.
        bind_fault (load av_pixels (i * RGB_CHANNEL_COUNT + 2)) (\<lambda>b.
        Inr (r, g, b, 255))))
      else
        bind_fault (load av_pixels i) (\<lambda>v. Inr (v, v, v, 255)))"

text \<open>Lines 234-237: the four stores into \<open>image_buf\<close>.\<close>

definition write_pixel :: "u8 list \<Rightarrow> nat \<Rightarrow> u8 \<times> u8 \<times> u8 \<times> u8 \<Rightarrow> fault + u8 list" where
  "write_pixel image_buf i px =
     (case px of (r, g, b, a) \<Rightarrow>
        bind_fault (store image_buf (i * RGBA_CHANNEL_COUNT + 0) r) (\<lambda>buf1.
        bind_fault (store buf1 (i * RGBA_CHANNEL_COUNT + 1) g) (\<lambda>buf2.
        bind_fault (store buf2 (i * RGBA_CHANNEL_COUNT + 2) b) (\<lambda>buf3.
        store buf3 (i * RGBA_CHANNEL_COUNT + 3) a))))"

text \<open>
  The inner loop (\<open>for x\<close>, line 200) from column \<open>x\<close>, and the outer loop (\<open>for y\<close>,
  line 198) from row \<open>y\<close>. The counters are \<open>uint32_t\<close> and stay below \<open>av_w\<close>, \<open>av_h\<close>,
  so \<open>++x\<close> and \<open>++y\<close> never wrap; the flat index is computed in \<open>size_t\<close>.
\<close>

function convert_row :: "u8 list \<Rightarrow> u8 \<Rightarrow> nat \<Rightarrow> nat \<Rightarrow> nat \<Rightarrow> u8 list \<Rightarrow> fault + u8 list" where
  "convert_row av_pixels av_ch av_w y x image_buf =
     (if x < av_w then
        (case read_pixel av_pixels av_ch (y * av_w + x) of
           Inl f \<Rightarrow> Inl f
         | Inr px \<Rightarrow>
             (case write_pixel image_buf (y * av_w + x) px of
                Inl f \<Rightarrow> Inl f
              | Inr buf' \<Rightarrow> convert_row av_pixels av_ch av_w y (Suc x) buf'))
      else Inr image_buf)"
  by pat_completeness auto
termination
  by (relation "measure (\<lambda>(p, c, aw, y, x, b). aw - x)") auto

declare convert_row.simps [simp del]

function convert_rows :: "u8 list \<Rightarrow> u8 \<Rightarrow> nat \<Rightarrow> nat \<Rightarrow> nat \<Rightarrow> u8 list \<Rightarrow> fault + u8 list" where
  "convert_rows av_pixels av_ch av_w av_h y image_buf =
     (if y < av_h then
        (case convert_row av_pixels av_ch av_w y 0 image_buf of
           Inl f \<Rightarrow> Inl f
         | Inr buf' \<Rightarrow> convert_rows av_pixels av_ch av_w av_h (Suc y) buf')
      else Inr image_buf)"
  by pat_completeness auto
termination
  by (relation "measure (\<lambda>(p, c, aw, ah, y, b). ah - y)") auto

declare convert_rows.simps [simp del]

text \<open>Lines 173-181: the truncation of a dimension.\<close>

definition clamp_dim :: "u32 \<Rightarrow> u32 \<Rightarrow> u32" where
  "clamp_dim d bound = (if d > bound then bound else d)"

text \<open>
  \<open>free(p)\<close>: nothing for the null pointer, the block is released when \<open>p\<close> is live, and
  anything else is undefined.
\<close>

definition free_block :: "(addr \<Rightarrow> u8 list option) \<Rightarrow> addr \<Rightarrow> fault + (addr \<Rightarrow> u8 list option)" where
  "free_block hp p =
     (if p = 0 then Inr hp
      else if hp p = None then Inl Bad_Free
      else Inr (hp(p := None)))"

text \<open>
  \<open>set_player_avatar\<close>. The environment is explicit: \<open>image_buf_ptr\<close> is what \<open>malloc\<close>
  returned (0 when it failed) and \<open>junk\<close> the indeterminate bytes of the fresh block.
  \<open>av_pixels\<close> is the object the source pointer points to; the function never writes it.
  \<open>image_buf_len\<close> is at most \<open>8 * 8 * 4\<close>, so the \<open>size_t\<close> product does not wrap.
\<close>

definition set_player_avatar ::
  "server \<Rightarrow> player_ptr \<Rightarrow> u8 list \<Rightarrow> u32 \<Rightarrow> u32 \<Rightarrow> u8 \<Rightarrow> addr \<Rightarrow> (nat \<Rightarrow> u8)
     \<Rightarrow> fault + (bool \<times> server)" where
  "set_player_avatar s target_player av_pixels av_w0 av_h0 av_ch image_buf_ptr junk =
     (let av_w = clamp_dim av_w0 MAX_AVATAR_W;
          av_h = clamp_dim av_h0 MAX_AVATAR_H;
          image_buf_len = unat av_w * unat av_h * RGBA_CHANNEL_COUNT
      in
        if image_buf_ptr = 0 then Inr (False, s)
        else
          (case convert_rows av_pixels av_ch (unat av_w) (unat av_h) 0
                  (map junk [0..<image_buf_len]) of
             Inl f \<Rightarrow> Inl f
           | Inr image_buf \<Rightarrow>
               (case target_player of
                  NULL \<Rightarrow> Inl Bad_Pointer
                | Row i \<Rightarrow>
                    if MAX_PLAYERS \<le> i then Inl Bad_Pointer
                    else
                      (case free_block ((heap s)(image_buf_ptr := Some image_buf))
                              (avatar (g_players s i)) of
                         Inl f \<Rightarrow> Inl f
                       | Inr hp \<Rightarrow>
                           Inr (True,
                                s\<lparr>g_players := (g_players s)
                                     (i := (g_players s i)
                                        \<lparr>avatar := image_buf_ptr,
                                         w := av_w,
                                         h := av_h,
                                         ch := of_nat RGBA_CHANNEL_COUNT,
                                         tex_dirty := True\<rparr>),
                                  heap := hp\<rparr>)))))"

section \<open>Reachable states\<close>

text \<open>
  The states the program can be in: the initial one, and any state a call of one of the
  two mutating table functions returns, for any arguments and any environment.
\<close>

inductive reachable :: "server \<Rightarrow> bool" where
  reachable_init: "reachable initial_server"
| reachable_ensure:
    "reachable s \<Longrightarrow> ensure_player s target_ip r1 r2 = Inr (p, s') \<Longrightarrow> reachable s'"
| reachable_avatar:
    "reachable s \<Longrightarrow>
     set_player_avatar s target_player av_pixels av_w0 av_h0 av_ch image_buf_ptr junk = Inr (b, s') \<Longrightarrow>
     reachable s'"

text \<open>
  A sequence of \<open>ensure_player\<close> calls, one per registration, each with its identity and
  its two values of \<open>rand()\<close>: the pointers returned, in order, and the final state.
\<close>

fun ensure_players ::
  "server \<Rightarrow> (u32 \<times> int \<times> int) list \<Rightarrow> fault + (player_ptr list \<times> server)" where
  "ensure_players s [] = Inr ([], s)"
| "ensure_players s ((target_ip, r1, r2) # calls) =
     (case ensure_player s target_ip r1 r2 of
        Inl f \<Rightarrow> Inl f
      | Inr (p, s') \<Rightarrow>
          (case ensure_players s' calls of
             Inl f \<Rightarrow> Inl f
           | Inr (ps, s'') \<Rightarrow> Inr (p # ps, s'')))"

section \<open>The normalisation as the specification words it\<close>

text \<open>
  Section 4.2 of the specification: for each pixel, four output bytes chosen by the channel
  count (4: R, G, B, A verbatim; 3: R, G, B and A = 255; anything else: the one input byte
  three times and A = 255), for the pixels of the clamped image. This is the reference the
  loop of \<open>set_player_avatar\<close> is compared with.
\<close>

definition spec_pixel :: "u8 list \<Rightarrow> u8 \<Rightarrow> nat \<Rightarrow> u8 list" where
  "spec_pixel pixels channel_count i =
     (if channel_count = 4 then
        [pixels ! (4 * i), pixels ! (4 * i + 1), pixels ! (4 * i + 2), pixels ! (4 * i + 3)]
      else if channel_count = 3 then
        [pixels ! (3 * i), pixels ! (3 * i + 1), pixels ! (3 * i + 2), 255]
      else [pixels ! i, pixels ! i, pixels ! i, 255])"

definition spec_normalize_avatar :: "u8 list \<Rightarrow> u32 \<Rightarrow> u32 \<Rightarrow> u8 \<Rightarrow> u8 list" where
  "spec_normalize_avatar pixels width height channel_count =
     concat (map (spec_pixel pixels channel_count)
               [0..<min (unat width) 8 * min (unat height) 8])"

text \<open>
  The loop invariant: the first \<open>n\<close> pixels of the output are converted, the rest of the
  buffer is as it was.
\<close>

definition converted :: "u8 list \<Rightarrow> u8 \<Rightarrow> nat \<Rightarrow> u8 list \<Rightarrow> u8 list" where
  "converted pixels channel_count n buf0 =
     concat (map (spec_pixel pixels channel_count) [0..<n]) @ drop (4 * n) buf0"

text \<open>
  A state in which the player of row 1 already owns a live avatar block, at address 1.
\<close>

definition avatar_server :: server where
  "avatar_server =
     initial_server
       \<lparr>g_players := (g_players initial_server)
          (1 := zero_Player\<lparr>ip := 7, player_id := 2, pos_x := 100, pos_y := 100, avatar := 1,
                            w := 1, h := 1, ch := 4, tex_dirty := True\<rparr>),
        heap := (\<lambda>_. None)(1 := Some [0, 0, 0, 255])\<rparr>"

section \<open>Wire helpers (w-helper.c, lines 14-80)\<close>

text \<open>
  \<open>recv\<close> and \<open>send\<close> are calls into the environment. What each call returns is given
  by a script, one entry per call: a \<open>recv\<close> delivers some bytes, reports that the peer
  has closed (returns 0) or fails with an \<open>errno\<close>; a \<open>send\<close> accepts some number of
  bytes or fails with an \<open>errno\<close>. Neither transfers more than the count it was asked
  for. The only \<open>errno\<close> value the code tells apart is \<open>EINTR\<close>.

  \<open>recvall\<close> calls \<open>perror\<close> between the failed \<open>recv\<close> and its test of \<open>errno\<close>
  (lines 34 and 37), and \<open>perror\<close> may itself store into \<open>errno\<close>. So a failed
  \<open>recv\<close> is \<open>Recv_Error e p\<close>: \<open>e\<close> is the \<open>errno\<close> that \<open>recv\<close> set, and \<open>p\<close> is
  what the \<open>perror\<close> call after it did to \<open>errno\<close>: \<open>None\<close> when it left it alone,
  \<open>Some e'\<close> when it stored \<open>e'\<close>.
\<close>

datatype errno = E_NONE | EINTR | E_OTHER

datatype recv_result = Recv_Bytes "u8 list" | Recv_Closed | Recv_Error errno "errno option"

text \<open>The value of \<open>errno\<close> that the test on line 37 reads.\<close>

definition errno_after_perror :: "errno \<Rightarrow> errno option \<Rightarrow> errno" where
  "errno_after_perror e p = (case p of None \<Rightarrow> e | Some e' \<Rightarrow> e')"

datatype send_result = Send_Bytes nat | Send_Error errno

text \<open>
  \<open>(ssize_t)n\<close> for a \<open>size_t\<close> value \<open>n\<close>, with 64-bit \<open>size_t\<close> and \<open>ssize_t\<close>.
\<close>

definition ssize_t_of :: "nat \<Rightarrow> int" where
  "ssize_t_of n = (if n < 2 ^ 63 then int n else int n - 2 ^ 64)"

text \<open>
  What \<open>recv\<close> does to the caller's buffer: the bytes land at offset \<open>off\<close>; beyond the
  end of the buffer is a fault.
\<close>

definition write_bytes :: "u8 list \<Rightarrow> nat \<Rightarrow> u8 list \<Rightarrow> fault + u8 list" where
  "write_bytes buf off chunk =
     (if off + length chunk \<le> length buf
      then Inr (take off buf @ chunk @ drop (off + length chunk) buf)
      else Inl Out_Of_Bounds_Write)"

text \<open>
  The loop of \<open>recvall\<close> with \<open>nrecv\<close> bytes received so far. \<open>None\<close> means that the
  script has ended while the loop is still waiting in \<open>recv\<close>: the function has not
  returned. Otherwise the result is the returned \<open>ssize_t\<close> and the buffer.
\<close>

fun recvall_loop ::
  "recv_result list \<Rightarrow> u8 list \<Rightarrow> nat \<Rightarrow> nat \<Rightarrow> (fault + (int \<times> u8 list)) option" where
  "recvall_loop [] buf len nrecv =
     (if nrecv < len then None else Some (Inr (ssize_t_of nrecv, buf)))"
| "recvall_loop (ev # evs) buf len nrecv =
     (if nrecv < len then
        (case ev of
           Recv_Bytes bs \<Rightarrow>
             (let chunk = take (len - nrecv) bs; nbytes = length chunk in
                if nbytes = 0 then Some (Inr (0, buf))
                else (case write_bytes buf nrecv chunk of
                        Inl f \<Rightarrow> Some (Inl f)
                      | Inr buf' \<Rightarrow> recvall_loop evs buf' len (nrecv + nbytes)))
         | Recv_Closed \<Rightarrow> Some (Inr (0, buf))
         | Recv_Error e p \<Rightarrow>
             if errno_after_perror e p = EINTR then recvall_loop evs buf len nrecv
             else Some (Inr (- 1, buf)))
      else Some (Inr (ssize_t_of nrecv, buf)))"

definition recvall :: "recv_result list \<Rightarrow> u8 list \<Rightarrow> nat \<Rightarrow> (fault + (int \<times> u8 list)) option" where
  "recvall evs buf len = recvall_loop evs buf len 0"

text \<open>
  The loop of \<open>sendall\<close>. \<open>err\<close> is the current value of \<open>errno\<close>: a \<open>send\<close> that
  returns 0 does not set it, so the test \<open>errno == EINTR\<close> then reads the value an
  earlier call left. \<open>wire\<close> collects the bytes handed to the transport.
\<close>

fun sendall_loop ::
  "send_result list \<Rightarrow> errno \<Rightarrow> u8 list \<Rightarrow> nat \<Rightarrow> nat \<Rightarrow> u8 list
     \<Rightarrow> (fault + (int \<times> u8 list)) option" where
  "sendall_loop [] err buf len nsent wire =
     (if nsent < len then None else Some (Inr (ssize_t_of nsent, wire)))"
| "sendall_loop (ev # evs) err buf len nsent wire =
     (if nsent < len then
        (case ev of
           Send_Bytes k \<Rightarrow>
             (let nbytes = min k (len - nsent) in
                if nbytes = 0 then
                  (if err = EINTR then sendall_loop evs err buf len nsent wire
                   else Some (Inr (- 1, wire)))
                else if length buf < nsent + nbytes then Some (Inl Out_Of_Bounds_Read)
                else sendall_loop evs err buf len (nsent + nbytes)
                       (wire @ take nbytes (drop nsent buf)))
         | Send_Error e \<Rightarrow>
             if e = EINTR then sendall_loop evs e buf len nsent wire
             else Some (Inr (- 1, wire)))
      else Some (Inr (ssize_t_of nsent, wire)))"

definition sendall ::
  "send_result list \<Rightarrow> errno \<Rightarrow> u8 list \<Rightarrow> nat \<Rightarrow> (fault + (int \<times> u8 list)) option" where
  "sendall evs err buf len = sendall_loop evs err buf len 0 []"

section \<open>The wire helpers as the specification words them\<close>

text \<open>
  Section 4.1 of the specification. Interrupted calls are not part of the outcome, so they
  are removed from the script first. \<open>receive_all\<close> then has three outcomes: all
  \<open>length\<close> bytes arrive (the result is \<open>length\<close> and the buffer starts with them);
  before that the peer closes (0); or before that a call fails (-1). If none of the three
  happens within the script there is no result yet.
\<close>

fun interrupted :: "recv_result \<Rightarrow> bool" where
  "interrupted (Recv_Error e p) = (e = EINTR)"
| "interrupted _ = False"

fun is_data :: "recv_result \<Rightarrow> bool" where
  "is_data (Recv_Bytes bs) = (bs \<noteq> [])"
| "is_data _ = False"

fun payload :: "recv_result \<Rightarrow> u8 list" where
  "payload (Recv_Bytes bs) = bs"
| "payload _ = []"

definition spec_receive_all ::
  "recv_result list \<Rightarrow> u8 list \<Rightarrow> nat \<Rightarrow> (fault + (int \<times> u8 list)) option" where
  "spec_receive_all evs buf len =
     (let evs' = filter (\<lambda>ev. \<not> interrupted ev) evs;
          arrived = concat (map payload (takeWhile is_data evs'))
      in if len \<le> length arrived then Some (Inr (int len, take len arrived @ drop len buf))
         else (case dropWhile is_data evs' of
                 [] \<Rightarrow> None
               | Recv_Error e p # _ \<Rightarrow> Some (Inr (- 1, arrived @ drop (length arrived) buf))
               | _ # _ \<Rightarrow> Some (Inr (0, arrived @ drop (length arrived) buf))))"

text \<open>
  \<open>send_all\<close>: the result is \<open>length\<close> when all bytes have been accepted by the
  transport and -1 when a call fails before that; a partial count is never a result.
\<close>

fun is_progress :: "send_result \<Rightarrow> bool" where
  "is_progress (Send_Bytes k) = (0 < k)"
| "is_progress _ = False"

fun amount :: "send_result \<Rightarrow> nat" where
  "amount (Send_Bytes k) = k"
| "amount _ = 0"

definition spec_send_all ::
  "send_result list \<Rightarrow> u8 list \<Rightarrow> nat \<Rightarrow> (fault + (int \<times> u8 list)) option" where
  "spec_send_all evs buf len =
     (let evs' = filter (\<lambda>ev. ev \<noteq> Send_Error EINTR) evs;
          accepted = sum_list (map amount (takeWhile is_progress evs'))
      in if len \<le> accepted then Some (Inr (int len, take len buf))
         else (case dropWhile is_progress evs' of
                 [] \<Rightarrow> None
               | _ # _ \<Rightarrow> Some (Inr (- 1, take accepted buf))))"

text \<open>The same two outcomes seen from the middle of a transfer, after \<open>nrecv\<close> or \<open>nsent\<close> bytes.\<close>

text \<open>
  A failed \<open>recv\<close> after which \<open>perror\<close> has not changed what the test
  \<open>errno == EINTR\<close> answers.
\<close>

fun test_undisturbed :: "recv_result \<Rightarrow> bool" where
  "test_undisturbed (Recv_Error e p) = ((errno_after_perror e p = EINTR) = (e = EINTR))"
| "test_undisturbed _ = True"

definition receive_outcome ::
  "recv_result list \<Rightarrow> u8 list \<Rightarrow> nat \<Rightarrow> nat \<Rightarrow> (fault + (int \<times> u8 list)) option" where
  "receive_outcome evs buf len nrecv =
     (let evs' = filter (\<lambda>ev. \<not> interrupted ev) evs;
          arrived = concat (map payload (takeWhile is_data evs'))
      in if len - nrecv \<le> length arrived
         then Some (Inr (ssize_t_of len, take nrecv buf @ take (len - nrecv) arrived @ drop len buf))
         else (case dropWhile is_data evs' of
                 [] \<Rightarrow> None
               | Recv_Error e p # _ \<Rightarrow>
                   Some (Inr (- 1, take nrecv buf @ arrived @ drop (nrecv + length arrived) buf))
               | _ # _ \<Rightarrow>
                   Some (Inr (0, take nrecv buf @ arrived @ drop (nrecv + length arrived) buf))))"

definition send_outcome ::
  "send_result list \<Rightarrow> u8 list \<Rightarrow> nat \<Rightarrow> nat \<Rightarrow> (fault + (int \<times> u8 list)) option" where
  "send_outcome evs buf len nsent =
     (let evs' = filter (\<lambda>ev. ev \<noteq> Send_Error EINTR) evs;
          accepted = sum_list (map amount (takeWhile is_progress evs'))
      in if len - nsent \<le> accepted then Some (Inr (ssize_t_of len, take len buf))
         else (case dropWhile is_progress evs' of
                 [] \<Rightarrow> None
               | _ # _ \<Rightarrow> Some (Inr (- 1, take (nsent + accepted) buf))))"


section \<open>Facts about the player table\<close>

lemmas config_defs =
  MAX_PLAYERS_def MAX_CLIENTS_def MAX_TAG_LEN_def MAX_AVATAR_W_def MAX_AVATAR_H_def
  RGBA_CHANNEL_COUNT_def RGB_CHANNEL_COUNT_def WINDOW_W_def WINDOW_H_def
  MIN_PLAYER_X_POS_def MAX_PLAYER_X_POS_def MIN_PLAYER_Y_POS_def MAX_PLAYER_Y_POS_def

lemma ensure_player_globals:
  "ensure_player s target_ip r1 r2 = Inr (p, s') \<Longrightarrow>
     g_player_count s' = g_player_count s \<and> g_next_player_id s' = g_next_player_id s
     \<and> heap s' = heap s"
  by (auto simp: ensure_player_def split: sum.splits player_ptr.splits if_splits)

lemma set_player_avatar_globals:
  "set_player_avatar s tp px aw ah c m junk = Inr (b, s') \<Longrightarrow>
     g_player_count s' = g_player_count s \<and> g_next_player_id s' = g_next_player_id s"
  by (auto simp: set_player_avatar_def Let_def split: sum.splits player_ptr.splits if_splits)

text \<open>
  Neither counter is ever assigned, so both keep their initial value in every reachable
  state.
\<close>

lemma reachable_globals:
  "reachable s \<Longrightarrow> g_player_count s = 0 \<and> g_next_player_id s = 1"
proof (induction rule: reachable.induct)
  case reachable_init
  show ?case by (simp add: initial_server_def)
next
  case (reachable_ensure s target_ip r1 r2 p s')
  then show ?case using ensure_player_globals by metis
next
  case (reachable_avatar s target_player av_pixels av_w0 av_h0 av_ch image_buf_ptr junk b s')
  then show ?case using set_player_avatar_globals by metis
qed

text \<open>With \<open>g_player_count = 0\<close> the scan finds nothing, whatever the rows hold.\<close>

lemma find_initial:
  "find_player_by_ip (initial_server\<lparr>g_players := rows, heap := hp\<rparr>) target_ip = Inr NULL"
  by (simp add: find_player_by_ip_def find_player_loop.simps initial_server_def)

lemma ensure_initial:
  "ensure_player (initial_server\<lparr>g_players := rows, heap := hp\<rparr>) target_ip r1 r2 =
     Inr (Row 1, initial_server\<lparr>g_players := rows(1 := new_player_row initial_server target_ip r1 r2),
                               heap := hp\<rparr>)"
  by (simp add: ensure_player_def find_initial new_player_index_def new_player_row_def)
     (simp add: initial_server_def config_defs)

lemma smod_one_int: "(r::int) smod 1 = 0"
  by (simp add: smod_int_alt_def)

text \<open>
  A 1x1 RGB avatar stored into row 1 of a table that is otherwise in its initial state.
\<close>

lemma avatar_example:
  assumes "avatar (rows 1) = 0"
  shows "set_player_avatar (initial_server\<lparr>g_players := rows, heap := (\<lambda>_. None)\<rparr>)
           (Row 1) [10, 20, 30] 1 1 3 1 junk =
         Inr (True,
              initial_server
                \<lparr>g_players := rows(1 := (rows 1)\<lparr>avatar := 1, w := 1, h := 1, ch := 4, tex_dirty := True\<rparr>),
                 heap := (\<lambda>_. None)(1 := Some [10, 20, 30, 255])\<rparr>)"
  using assms
  apply (simp add: set_player_avatar_def clamp_dim_def config_defs Let_def)
  apply (simp add: convert_rows.simps convert_row.simps read_pixel_def write_pixel_def
      load_def store_def bind_fault_def config_defs free_block_def initial_server_def upt_rec)
  done

text \<open>
  Any sequence of calls from a state whose counters have their initial values returns
  slot 1 every time and ends in such a state.
\<close>

lemma ensure_players_initial:
  "\<exists>rows'. ensure_players (initial_server\<lparr>g_players := rows, heap := hp\<rparr>) calls =
     Inr (replicate (length calls) (Row 1), initial_server\<lparr>g_players := rows', heap := hp\<rparr>)"
proof (induction calls arbitrary: rows)
  case Nil
  show ?case by auto
next
  case (Cons c calls)
  obtain target_ip r1 r2 where c: "c = (target_ip, r1, r2)" by (cases c) auto
  let ?rows1 = "rows(1 := new_player_row initial_server target_ip r1 r2)"
  from Cons.IH [of ?rows1] obtain rows' where
    "ensure_players (initial_server\<lparr>g_players := ?rows1, heap := hp\<rparr>) calls =
       Inr (replicate (length calls) (Row 1), initial_server\<lparr>g_players := rows', heap := hp\<rparr>)"
    by blast
  then have "ensure_players (initial_server\<lparr>g_players := rows, heap := hp\<rparr>) (c # calls) =
       Inr (replicate (length (c # calls)) (Row 1), initial_server\<lparr>g_players := rows', heap := hp\<rparr>)"
    by (simp add: c ensure_initial)
  then show ?case by blast
qed

text \<open>In no reachable state is the table full in the sense of the capacity guard.\<close>

lemma capacity_guard_never_fires:
  "reachable s \<Longrightarrow> \<not> MAX_PLAYERS \<le> g_player_count s"
  using reachable_globals by (auto simp: config_defs)

text \<open>
  The capacity guard by itself does not bound the written index: with 31 rows in use the
  guard passes and the index is 32, one past the array. (Such a state is not reachable,
  see \<open>reachable_globals\<close>.)
\<close>

lemma guard_alone_admits_index_32:
  "g_player_count s = 31 \<Longrightarrow> find_player_by_ip s target_ip = Inr NULL \<Longrightarrow>
   g_player_count s < MAX_PLAYERS \<and> new_player_index s = MAX_PLAYERS
   \<and> ensure_player s target_ip r1 r2 = Inl Out_Of_Bounds_Write"
  by (simp add: ensure_player_def new_player_index_def config_defs)

section \<open>Claims about the player table\<close>

text \<open>
  C1. The claim: once \<open>ensure_player\<close> has created a row for an identity, a later call
  with the same identity returns that existing row instead of creating one again.
  What the code does on the sequence "register identity 7, upload a 1x1 RGB avatar,
  register identity 7 again", from the initial state: the second \<open>ensure_player\<close> does
  not find the row (\<open>find_player_by_ip\<close> returns NULL, because \<open>g_player_count\<close> is
  still 0) and goes through the creating branch again. It returns the same slot 1 with
  the same \<open>player_id\<close>, and the count has not grown, but the row has been wiped and
  re-initialised: the avatar pointer is null again and the dirty flag is cleared, while
  the avatar block is still allocated.
\<close>

theorem ensure_player_recreates_row:
  "\<exists>s1 s2 s3.
     ensure_player initial_server 7 r1 r2 = Inr (Row 1, s1)
   \<and> set_player_avatar s1 (Row 1) [10, 20, 30] 1 1 3 1 junk = Inr (True, s2)
   \<and> ip (g_players s2 1) = 7 \<and> avatar (g_players s2 1) = 1 \<and> tex_dirty (g_players s2 1)
   \<and> heap s2 1 = Some [10, 20, 30, 255]
   \<and> find_player_by_ip s2 7 = Inr NULL
   \<and> ensure_player s2 7 r3 r4 = Inr (Row 1, s3)
   \<and> g_players s3 1 = new_player_row initial_server 7 r3 r4
   \<and> avatar (g_players s3 1) = 0 \<and> \<not> tex_dirty (g_players s3 1)
   \<and> heap s3 1 = Some [10, 20, 30, 255]
   \<and> g_player_count s3 = 0"
proof -
  let ?rows0 = "g_players initial_server"
  have init: "initial_server = initial_server\<lparr>g_players := ?rows0, heap := (\<lambda>_. None)\<rparr>"
    by (simp add: initial_server_def)
  let ?rows1 = "?rows0(1 := new_player_row initial_server 7 r1 r2)"
  let ?s1 = "initial_server\<lparr>g_players := ?rows1, heap := (\<lambda>_. None)\<rparr>"
  have e1: "ensure_player initial_server 7 r1 r2 = Inr (Row 1, ?s1)"
    by (subst init, subst ensure_initial) simp
  have av0: "avatar (?rows1 1) = 0"
    by (simp add: new_player_row_def zero_Player_def)
  let ?rows2 = "?rows1(1 := (?rows1 1)\<lparr>avatar := 1, w := 1, h := 1, ch := 4, tex_dirty := True\<rparr>)"
  let ?s2 = "initial_server\<lparr>g_players := ?rows2, heap := (\<lambda>_. None)(1 := Some [10, 20, 30, 255])\<rparr>"
  have e2: "set_player_avatar ?s1 (Row 1) [10, 20, 30] 1 1 3 1 junk = Inr (True, ?s2)"
    using av0 by (intro avatar_example)
  let ?s3 = "initial_server\<lparr>g_players := ?rows2(1 := new_player_row initial_server 7 r3 r4),
                heap := (\<lambda>_. None)(1 := Some [10, 20, 30, 255])\<rparr>"
  have e3: "ensure_player ?s2 7 r3 r4 = Inr (Row 1, ?s3)"
    by (rule ensure_initial)
  have f2: "find_player_by_ip ?s2 7 = Inr NULL"
    by (rule find_initial)
  have props2: "ip (g_players ?s2 1) = 7" "avatar (g_players ?s2 1) = 1"
    "tex_dirty (g_players ?s2 1)" "heap ?s2 1 = Some [10, 20, 30, 255]"
    by (simp_all add: new_player_row_def)
  have props3: "g_players ?s3 1 = new_player_row initial_server 7 r3 r4"
    "avatar (g_players ?s3 1) = 0" "\<not> tex_dirty (g_players ?s3 1)"
    "heap ?s3 1 = Some [10, 20, 30, 255]" "g_player_count ?s3 = 0"
    by (simp_all add: new_player_row_def zero_Player_def initial_server_def)
  show ?thesis
    using e1 e2 e3 f2 props2 props3 by blast
qed

text \<open>
  C2. The claim: once capacity is exhausted, an \<open>ensure_player\<close> call for a new identity
  returns NULL and creates no row. What the code does when 33 different identities,
  1 to 33, register one after the other from the initial state: every one of the 33 calls
  returns slot 1, none returns NULL, and \<open>g_player_count\<close> is 0 afterwards. The guard
  \<open>g_player_count >= MAX_PLAYERS\<close> can never fire, because the count is never
  incremented (\<open>capacity_guard_never_fires\<close>).
\<close>

theorem table_never_full:
  "\<exists>s. ensure_players initial_server (map (\<lambda>n. (of_nat n, 0, 0)) [1..<34])
          = Inr (replicate 33 (Row 1), s)
     \<and> g_player_count s = 0
     \<and> distinct (map (of_nat :: nat \<Rightarrow> u32) [1..<34])"
proof -
  obtain rows' where
    run: "ensure_players initial_server (map (\<lambda>n. (of_nat n, 0, 0)) [1..<34])
            = Inr (replicate (length (map (\<lambda>n. (of_nat n :: u32, 0 :: int, 0 :: int)) [1..<34]))
                     (Row 1),
                   initial_server\<lparr>g_players := rows', heap := heap initial_server\<rparr>)"
    using ensure_players_initial
      [where rows = "g_players initial_server" and hp = "heap initial_server"
         and calls = "map (\<lambda>n. (of_nat n, 0, 0)) [1..<34]"]
    by auto
  have count: "g_player_count (initial_server\<lparr>g_players := rows', heap := heap initial_server\<rparr>) = 0"
    by (simp add: initial_server_def)
  have inj: "inj_on (of_nat :: nat \<Rightarrow> u32) (set [1..<34])"
  proof (rule inj_onI)
    fix x y :: nat
    assume "x \<in> set [1..<34]" "y \<in> set [1..<34]" "(of_nat x :: u32) = of_nat y"
    then have "x < 2 ^ 32" "y < 2 ^ 32" "unat (of_nat x :: u32) = unat (of_nat y :: u32)"
      by simp_all
    then show "x = y" by (simp add: unat_of_nat)
  qed
  have "distinct (map (of_nat :: nat \<Rightarrow> u32) [1..<34])"
    using inj by (simp add: distinct_map)
  with run count show ?thesis by auto
qed

text \<open>
  C3. The claim: the ids given to newly created players are strictly increasing, unique
  and never reused. What the code does when two different identities, 1 and 2, register
  one after the other from the initial state: both creations assign \<open>player_id = 2\<close>
  (\<open>g_next_player_id + 1\<close> with the counter still at its initial value 1), and the
  counter is 1 afterwards.
\<close>

theorem player_id_not_increasing:
  "\<exists>s1 s2.
     ensure_player initial_server 1 r1 r2 = Inr (Row 1, s1)
   \<and> player_id (g_players s1 1) = 2
   \<and> find_player_by_ip s1 2 = Inr NULL
   \<and> ensure_player s1 2 r3 r4 = Inr (Row 1, s2)
   \<and> ip (g_players s2 1) = 2
   \<and> player_id (g_players s2 1) = 2
   \<and> g_next_player_id s2 = 1"
proof -
  let ?rows0 = "g_players initial_server"
  have init: "initial_server = initial_server\<lparr>g_players := ?rows0, heap := heap initial_server\<rparr>"
    by simp
  let ?rows1 = "?rows0(1 := new_player_row initial_server 1 r1 r2)"
  let ?s1 = "initial_server\<lparr>g_players := ?rows1, heap := heap initial_server\<rparr>"
  let ?s2 = "initial_server\<lparr>g_players := ?rows1(1 := new_player_row initial_server 2 r3 r4),
               heap := heap initial_server\<rparr>"
  have e1: "ensure_player initial_server 1 r1 r2 = Inr (Row 1, ?s1)"
    by (subst init, subst ensure_initial) simp
  have e2: "ensure_player ?s1 2 r3 r4 = Inr (Row 1, ?s2)"
    by (rule ensure_initial)
  have f: "find_player_by_ip ?s1 2 = Inr NULL"
    by (rule find_initial)
  have props: "player_id (g_players ?s1 1) = 2" "ip (g_players ?s2 1) = 2"
    "player_id (g_players ?s2 1) = 2" "g_next_player_id ?s2 = 1"
    by (simp_all add: new_player_row_def initial_server_def)
  show ?thesis using e1 e2 f props by blast
qed

text \<open>
  C4. In every reachable state, when \<open>ensure_player\<close> does not find the identity and the
  capacity check passes, the index it writes, \<open>g_player_count + 1\<close>, is below
  \<open>MAX_PLAYERS\<close>, and the call returns that row without a fault.
\<close>

theorem new_player_index_valid:
  assumes "reachable s"
    and "find_player_by_ip s target_ip = Inr NULL"
    and "g_player_count s < MAX_PLAYERS"
  shows "new_player_index s < MAX_PLAYERS \<and>
         ensure_player s target_ip r1 r2 =
           Inr (Row (new_player_index s),
                s\<lparr>g_players :=
                    (g_players s)(new_player_index s := new_player_row s target_ip r1 r2)\<rparr>)"
proof -
  from assms(1) have "g_player_count s = 0" using reachable_globals by blast
  then have "new_player_index s < MAX_PLAYERS"
    by (simp add: new_player_index_def config_defs)
  then show ?thesis using assms(2,3) by (simp add: ensure_player_def)
qed

theorem new_player_index_valid_witness:
  "reachable initial_server \<and> find_player_by_ip initial_server 7 = Inr NULL
   \<and> g_player_count initial_server < MAX_PLAYERS
   \<and> new_player_index initial_server = 1 \<and> (1::nat) < MAX_PLAYERS
   \<and> ensure_player initial_server 7 0 0 =
       Inr (Row 1, initial_server\<lparr>g_players :=
              (g_players initial_server)(1 := new_player_row initial_server 7 0 0)\<rparr>)"
proof -
  have a: "reachable initial_server" by (rule reachable_init)
  have b: "find_player_by_ip initial_server 7 = Inr NULL"
    by (simp add: find_player_by_ip_def find_player_loop.simps initial_server_def)
  have c: "g_player_count initial_server < MAX_PLAYERS"
    by (simp add: initial_server_def config_defs)
  have d: "new_player_index initial_server = 1"
    by (simp add: new_player_index_def initial_server_def)
  show ?thesis
    using new_player_index_valid [OF a b c, of 0 0] a b c d by simp
qed

text \<open>
  C10. A player created by \<open>ensure_player\<close> gets a position inside the configured
  rectangle, whatever the two values of \<open>rand()\<close> are. (Both calls are
  \<open>irand(100, 500 - 400)\<close>, so the position is always (100, 100).)
\<close>

theorem new_player_position:
  assumes "find_player_by_ip s target_ip = Inr NULL"
    and "ensure_player s target_ip r1 r2 = Inr (Row i, s')"
  shows "MIN_PLAYER_X_POS \<le> pos_x (g_players s' i) \<and> pos_x (g_players s' i) \<le> MAX_PLAYER_X_POS
       \<and> MIN_PLAYER_Y_POS \<le> pos_y (g_players s' i) \<and> pos_y (g_players s' i) \<le> MAX_PLAYER_Y_POS"
proof -
  from assms have row: "g_players s' i = new_player_row s target_ip r1 r2"
    by (auto simp: ensure_player_def split: if_splits)
  have "pos_x (new_player_row s target_ip r1 r2) = 100"
    "pos_y (new_player_row s target_ip r1 r2) = 100"
    by (simp_all add: new_player_row_def irand_def smod_one_int config_defs)
  with row show ?thesis
    by (simp add: config_defs)
qed

theorem new_player_position_witness:
  "find_player_by_ip initial_server 9 = Inr NULL
   \<and> ensure_player initial_server 9 12345 678 =
       Inr (Row 1, initial_server\<lparr>g_players :=
              (g_players initial_server)(1 := new_player_row initial_server 9 12345 678)\<rparr>)
   \<and> MIN_PLAYER_X_POS \<le> pos_x (new_player_row initial_server 9 12345 678)
   \<and> pos_x (new_player_row initial_server 9 12345 678) \<le> MAX_PLAYER_X_POS
   \<and> MIN_PLAYER_Y_POS \<le> pos_y (new_player_row initial_server 9 12345 678)
   \<and> pos_y (new_player_row initial_server 9 12345 678) \<le> MAX_PLAYER_Y_POS"
proof -
  let ?rows0 = "g_players initial_server"
  have init: "initial_server = initial_server\<lparr>g_players := ?rows0, heap := heap initial_server\<rparr>"
    by simp
  have a: "find_player_by_ip initial_server 9 = Inr NULL"
    by (subst init) (rule find_initial)
  have b: "ensure_player initial_server 9 12345 678 =
       Inr (Row 1, initial_server\<lparr>g_players :=
              ?rows0(1 := new_player_row initial_server 9 12345 678)\<rparr>)"
    by (subst init, subst ensure_initial) simp
  show ?thesis
    using new_player_position [OF a b] a b by simp
qed

section \<open>Facts about the avatar update\<close>

lemma four_updates:
  "n + 4 \<le> length xs \<Longrightarrow>
   xs[n := r, n + 1 := g, n + 2 := b, n + 3 := a] = take n xs @ [r, g, b, a] @ drop (n + 4) xs"
  apply (rule nth_equalityI)
   apply simp
  apply (auto simp: nth_append nth_list_update nth_Cons')
  done

lemma channel_count_eq: "unat (c::u8) = 4 \<longleftrightarrow> c = 4" "unat c = 3 \<longleftrightarrow> c = 3"
  by (simp_all add: word_unat_eq_iff)

lemma read_pixel_Inr:
  "read_pixel px c i = Inr (r, g, b, a) \<Longrightarrow> spec_pixel px c i = [r, g, b, a]"
  by (auto simp: read_pixel_def spec_pixel_def load_def bind_fault_def config_defs
      channel_count_eq mult.commute split: if_splits)

lemma read_pixel_Inl: "read_pixel px c i = Inl f \<Longrightarrow> f = Out_Of_Bounds_Read"
  by (auto simp: read_pixel_def load_def bind_fault_def split: if_splits)

lemma write_pixel_Inl: "write_pixel buf i q = Inl f \<Longrightarrow> f = Out_Of_Bounds_Write"
  by (cases q) (auto simp: write_pixel_def store_def bind_fault_def split: if_splits)

lemma write_pixel_Inr:
  assumes "write_pixel buf i (r, g, b, a) = Inr buf'"
  shows "4 * i + 4 \<le> length buf \<and> buf' = take (4 * i) buf @ [r, g, b, a] @ drop (4 * i + 4) buf"
proof -
  from assms have len: "4 * i + 4 \<le> length buf"
    and upd: "buf' = buf[4 * i := r, 4 * i + 1 := g, 4 * i + 2 := b, 4 * i + 3 := a]"
    by (auto simp: write_pixel_def store_def bind_fault_def config_defs mult.commute
        split: if_splits)
  from len upd show ?thesis
    using four_updates [of "4 * i" buf r g b a] by simp
qed

lemma length_spec_pixel: "length (spec_pixel px c i) = 4"
  by (simp add: spec_pixel_def)

lemma length_concat_spec: "length (concat (map (spec_pixel px c) [0..<n])) = 4 * n"
  by (induction n) (simp_all add: length_spec_pixel)

lemma converted_step:
  assumes "read_pixel px c n = Inr q"
    and "write_pixel (converted px c n buf0) n q = Inr buf'"
  shows "buf' = converted px c (Suc n) buf0"
proof -
  obtain r g b a where q: "q = (r, g, b, a)" by (cases q) auto
  let ?P = "concat (map (spec_pixel px c) [0..<n])"
  have lenP: "length ?P = 4 * n" by (rule length_concat_spec)
  from assms(1) q have sp: "spec_pixel px c n = [r, g, b, a]"
    using read_pixel_Inr by blast
  from assms(2) q
  have "buf' = take (4 * n) (?P @ drop (4 * n) buf0) @ [r, g, b, a]
                @ drop (4 * n + 4) (?P @ drop (4 * n) buf0)"
    using write_pixel_Inr [of "converted px c n buf0" n r g b a buf']
    by (simp add: converted_def)
  also have "take (4 * n) (?P @ drop (4 * n) buf0) = ?P"
    using lenP by simp
  also have "drop (4 * n + 4) (?P @ drop (4 * n) buf0) = drop (4 * Suc n) buf0"
    using lenP by (simp add: add.commute)
  finally show ?thesis
    using sp by (simp add: converted_def)
qed

lemma convert_row_result:
  "convert_row px c aw y x buf = Inr buf' \<Longrightarrow> x \<le> aw \<Longrightarrow>
   buf = converted px c (y * aw + x) buf0 \<Longrightarrow>
   buf' = converted px c (y * aw + aw) buf0"
proof (induction px c aw y x buf rule: convert_row.induct)
  case (1 av_pixels av_ch av_w y x image_buf)
  show ?case
  proof (cases "x < av_w")
    case True
    from "1.prems"(1) True obtain q buf1 where
      rd: "read_pixel av_pixels av_ch (y * av_w + x) = Inr q"
      and wr: "write_pixel image_buf (y * av_w + x) q = Inr buf1"
      and rest: "convert_row av_pixels av_ch av_w y (Suc x) buf1 = Inr buf'"
      by (subst (asm) convert_row.simps) (auto split: sum.splits)
    from rd wr "1.prems"(3) have "buf1 = converted av_pixels av_ch (Suc (y * av_w + x)) buf0"
      using converted_step by blast
    then have "buf1 = converted av_pixels av_ch (y * av_w + Suc x) buf0" by simp
    with "1.IH" [OF True rd wr rest] True show ?thesis by simp
  next
    case False
    with "1.prems" have "x = av_w" "buf' = image_buf"
      by (auto simp: convert_row.simps)
    with "1.prems"(3) show ?thesis by simp
  qed
qed

lemma convert_rows_result:
  "convert_rows px c aw ah y buf = Inr buf' \<Longrightarrow> y \<le> ah \<Longrightarrow>
   buf = converted px c (y * aw) buf0 \<Longrightarrow>
   buf' = converted px c (ah * aw) buf0"
proof (induction px c aw ah y buf rule: convert_rows.induct)
  case (1 av_pixels av_ch av_w av_h y image_buf)
  show ?case
  proof (cases "y < av_h")
    case True
    from "1.prems"(1) True obtain buf1 where
      row: "convert_row av_pixels av_ch av_w y 0 image_buf = Inr buf1"
      and rest: "convert_rows av_pixels av_ch av_w av_h (Suc y) buf1 = Inr buf'"
      by (subst (asm) convert_rows.simps) (auto split: sum.splits)
    from row "1.prems"(3) have "buf1 = converted av_pixels av_ch (y * av_w + av_w) buf0"
      using convert_row_result [of av_pixels av_ch av_w y 0 image_buf buf1 buf0] by simp
    then have "buf1 = converted av_pixels av_ch (Suc y * av_w) buf0"
      by (simp add: add.commute)
    with "1.IH" [OF True row rest] True show ?thesis by simp
  next
    case False
    with "1.prems" have "y = av_h" "buf' = image_buf"
      by (auto simp: convert_rows.simps)
    with "1.prems"(3) show ?thesis by simp
  qed
qed

lemma convert_rows_whole:
  assumes "convert_rows px c aw ah 0 buf0 = Inr buf'" and "length buf0 = aw * ah * 4"
  shows "buf' = concat (map (spec_pixel px c) [0..<aw * ah])"
proof -
  have "buf0 = converted px c (0 * aw) buf0" by (simp add: converted_def)
  with assms(1) have "buf' = converted px c (ah * aw) buf0"
    using convert_rows_result [of px c aw ah 0 buf0 buf' buf0] by simp
  with assms(2) show ?thesis
    by (simp add: converted_def mult.commute)
qed

lemma convert_row_fault:
  "convert_row px c aw y x buf = Inl f \<Longrightarrow>
   (\<And>k. k < y * aw + aw \<Longrightarrow> \<exists>q. read_pixel px c k = Inr q) \<Longrightarrow>
   f = Out_Of_Bounds_Write"
proof (induction px c aw y x buf rule: convert_row.induct)
  case (1 av_pixels av_ch av_w y x image_buf)
  show ?case
  proof (cases "x < av_w")
    case True
    then obtain q where rd: "read_pixel av_pixels av_ch (y * av_w + x) = Inr q"
      using "1.prems"(2) [of "y * av_w + x"] by auto
    show ?thesis
    proof (cases "write_pixel image_buf (y * av_w + x) q")
      case (Inl e)
      with "1.prems"(1) True rd have "f = e"
        by (subst (asm) convert_row.simps) simp
      with Inl show ?thesis using write_pixel_Inl by blast
    next
      case (Inr buf1)
      with "1.prems"(1) True rd
      have "convert_row av_pixels av_ch av_w y (Suc x) buf1 = Inl f"
        by (subst (asm) convert_row.simps) simp
      with "1.IH" [OF True rd Inr] "1.prems"(2) show ?thesis by blast
    qed
  next
    case False
    with "1.prems"(1) show ?thesis by (simp add: convert_row.simps)
  qed
qed

lemma convert_rows_fault:
  "convert_rows px c aw ah y buf = Inl f \<Longrightarrow>
   (\<And>k. k < ah * aw \<Longrightarrow> \<exists>q. read_pixel px c k = Inr q) \<Longrightarrow>
   f = Out_Of_Bounds_Write"
proof (induction px c aw ah y buf rule: convert_rows.induct)
  case (1 av_pixels av_ch av_w av_h y image_buf)
  show ?case
  proof (cases "y < av_h")
    case True
    then have "Suc y * av_w \<le> av_h * av_w" by (intro mult_le_mono1) simp
    then have reads: "\<exists>q. read_pixel av_pixels av_ch k = Inr q" if "k < y * av_w + av_w" for k
      using that "1.prems"(2) [of k] by simp
    show ?thesis
    proof (cases "convert_row av_pixels av_ch av_w y 0 image_buf")
      case (Inl e)
      with "1.prems"(1) True have "f = e"
        by (subst (asm) convert_rows.simps) simp
      with Inl reads show ?thesis using convert_row_fault by blast
    next
      case (Inr buf1)
      with "1.prems"(1) True
      have "convert_rows av_pixels av_ch av_w av_h (Suc y) buf1 = Inl f"
        by (subst (asm) convert_rows.simps) simp
      with "1.IH" [OF True Inr] "1.prems"(2) show ?thesis by blast
    qed
  next
    case False
    with "1.prems"(1) show ?thesis by (simp add: convert_rows.simps)
  qed
qed

lemma read_pixel_in_bounds:
  assumes "c \<noteq> 0" and "k < n" and "n * unat c \<le> length px"
  shows "\<exists>q. read_pixel px c k = Inr q"
proof -
  have pos: "0 < unat c" using assms(1) by (simp add: unat_gt_0)
  from assms(2) have "Suc k * unat c \<le> n * unat c" by (intro mult_le_mono1) simp
  with assms(3) have bound: "k * unat c + unat c \<le> length px" by simp
  have "Suc k * 1 \<le> Suc k * unat c" using pos by (intro mult_le_mono2) simp
  with bound have "k < length px" by simp
  with bound show ?thesis
    by (auto simp: read_pixel_def load_def bind_fault_def config_defs)
qed



lemma unat_clamp_dim: "unat (clamp_dim d 8) = min (unat d) 8"
  by (simp add: clamp_dim_def word_less_nat_alt min_def)

lemma free_block_Inr:
  "free_block hp p = Inr hp' \<Longrightarrow> hp' = (if p = 0 then hp else hp(p := None))"
  by (auto simp: free_block_def split: if_splits)

lemma set_player_avatar_True:
  assumes "set_player_avatar s (Row i) px aw ah c m junk = Inr (True, s')"
  shows "m \<noteq> 0 \<and> i < MAX_PLAYERS \<and>
         (\<exists>buf hp.
            convert_rows px c (min (unat aw) 8) (min (unat ah) 8) 0
              (map junk [0..<min (unat aw) 8 * min (unat ah) 8 * 4]) = Inr buf
          \<and> free_block ((heap s)(m := Some buf)) (avatar (g_players s i)) = Inr hp
          \<and> s' = s\<lparr>g_players := (g_players s)
                      (i := (g_players s i)
                         \<lparr>avatar := m, w := clamp_dim aw 8, h := clamp_dim ah 8, ch := 4,
                          tex_dirty := True\<rparr>),
                    heap := hp\<rparr>)"
  using assms
  by (auto simp: set_player_avatar_def Let_def unat_clamp_dim config_defs
      split: if_splits sum.splits)

lemma set_player_avatar_buffer:
  assumes "set_player_avatar s (Row i) px aw ah c m junk = Inr (True, s')"
    and "avatar (g_players s i) \<noteq> m"
  shows "avatar (g_players s' i) = m \<and> heap s' m = Some (spec_normalize_avatar px aw ah c)"
proof -
  let ?n = "min (unat aw) 8 * min (unat ah) 8"
  from set_player_avatar_True [OF assms(1)] obtain buf hp where
    conv: "convert_rows px c (min (unat aw) 8) (min (unat ah) 8) 0 (map junk [0..<?n * 4]) = Inr buf"
    and fr: "free_block ((heap s)(m := Some buf)) (avatar (g_players s i)) = Inr hp"
    and s': "s' = s\<lparr>g_players := (g_players s)
                      (i := (g_players s i)
                         \<lparr>avatar := m, w := clamp_dim aw 8, h := clamp_dim ah 8, ch := 4,
                          tex_dirty := True\<rparr>),
                    heap := hp\<rparr>"
    by blast
  from conv have "buf = concat (map (spec_pixel px c) [0..<?n])"
    by (intro convert_rows_whole [OF conv]) simp
  then have buf: "buf = spec_normalize_avatar px aw ah c"
    by (simp add: spec_normalize_avatar_def)
  from fr assms(2) have "hp m = Some buf"
    by (auto dest!: free_block_Inr)
  with buf s' show ?thesis by simp
qed

lemmas avatar_eval =
  set_player_avatar_def clamp_dim_def config_defs Let_def convert_rows.simps convert_row.simps
  read_pixel_def write_pixel_def load_def store_def bind_fault_def free_block_def upt_rec


lemma wide_run:
  "set_player_avatar initial_server (Row 1) [1, 2, 3, 4, 5, 6, 7, 8, 9] 9 1 1 1 of_nat =
     Inr (True,
          initial_server
            \<lparr>g_players := (g_players initial_server)
               (1 := (g_players initial_server 1)
                  \<lparr>avatar := 1, w := 8, h := 1, ch := 4, tex_dirty := True\<rparr>),
             heap := (heap initial_server)
               (1 := Some [1, 1, 1, 255, 2, 2, 2, 255, 3, 3, 3, 255, 4, 4, 4, 255,
                           5, 5, 5, 255, 6, 6, 6, 255, 7, 7, 7, 255, 8, 8, 8, 255])\<rparr>)"
  by (simp add: avatar_eval initial_server_def zero_Player_def)

lemma swap_run:
  "set_player_avatar avatar_server (Row 1) [10, 20, 30] 1 1 3 2 of_nat =
     Inr (True,
          avatar_server
            \<lparr>g_players := (g_players avatar_server)
               (1 := (g_players avatar_server 1)
                  \<lparr>avatar := 2, w := 1, h := 1, ch := 4, tex_dirty := True\<rparr>),
             heap := (\<lambda>_. None)(2 := Some [10, 20, 30, 255])\<rparr>)"
  by (simp add: avatar_eval avatar_server_def initial_server_def zero_Player_def fun_eq_iff)

section \<open>Claims about the avatar update\<close>



text \<open>
  C7, as amended. If the channel count is not 0 and the source buffer holds at least
  width * height * channel count bytes (the product of the dimensions as given, before
  clamping), no read of the conversion loop is outside the source buffer, for any width,
  height and state; and on success the recorded dimensions are the given ones truncated
  to 8.
\<close>

theorem avatar_reads_in_bounds:
  assumes "av_ch \<noteq> 0"
    and "unat av_w0 * unat av_h0 * unat av_ch \<le> length av_pixels"
  shows "set_player_avatar s target_player av_pixels av_w0 av_h0 av_ch image_buf_ptr junk
           \<noteq> Inl Out_Of_Bounds_Read
       \<and> (\<forall>i s'. target_player = Row i \<and>
             set_player_avatar s target_player av_pixels av_w0 av_h0 av_ch image_buf_ptr junk
               = Inr (True, s') \<longrightarrow>
             unat (w (g_players s' i)) = min (unat av_w0) 8
           \<and> unat (h (g_players s' i)) = min (unat av_h0) 8)"
proof
  let ?aw = "min (unat av_w0) 8" and ?ah = "min (unat av_h0) 8"
  have "?ah * ?aw \<le> unat av_w0 * unat av_h0"
    using mult_le_mono [of ?ah "unat av_h0" ?aw "unat av_w0"] by (simp add: mult.commute)
  then have "?ah * ?aw * unat av_ch \<le> unat av_w0 * unat av_h0 * unat av_ch"
    by (rule mult_le_mono1)
  from this assms(2) have src: "?ah * ?aw * unat av_ch \<le> length av_pixels"
    by (rule le_trans)
  have reads: "\<exists>q. read_pixel av_pixels av_ch k = Inr q" if "k < ?ah * ?aw" for k
    using read_pixel_in_bounds [OF assms(1) that src] .
  have conv: "f = Out_Of_Bounds_Write"
    if "convert_rows av_pixels av_ch ?aw ?ah 0 buf = Inl f" for f buf
    using convert_rows_fault [OF that] reads by blast
  show "set_player_avatar s target_player av_pixels av_w0 av_h0 av_ch image_buf_ptr junk
           \<noteq> Inl Out_Of_Bounds_Read"
    using conv
    by (auto simp: set_player_avatar_def Let_def unat_clamp_dim config_defs free_block_def
        split: if_splits sum.splits player_ptr.splits)
next
  show "\<forall>i s'. target_player = Row i \<and>
             set_player_avatar s target_player av_pixels av_w0 av_h0 av_ch image_buf_ptr junk
               = Inr (True, s') \<longrightarrow>
             unat (w (g_players s' i)) = min (unat av_w0) 8
           \<and> unat (h (g_players s' i)) = min (unat av_h0) 8"
  proof (intro allI impI)
    fix i s'
    assume "target_player = Row i \<and>
             set_player_avatar s target_player av_pixels av_w0 av_h0 av_ch image_buf_ptr junk
               = Inr (True, s')"
    then have "set_player_avatar s (Row i) av_pixels av_w0 av_h0 av_ch image_buf_ptr junk
               = Inr (True, s')" by auto
    from set_player_avatar_True [OF this]
    show "unat (w (g_players s' i)) = min (unat av_w0) 8
           \<and> unat (h (g_players s' i)) = min (unat av_h0) 8"
      by (auto simp: unat_clamp_dim)
  qed
qed

theorem avatar_reads_in_bounds_witness:
  "(1::u8) \<noteq> 0
   \<and> unat (9::u32) * unat (1::u32) * unat (1::u8) \<le> length [1, 2, 3, 4, 5, 6, 7, 8, 9 :: u8]
   \<and> set_player_avatar initial_server (Row 1) [1, 2, 3, 4, 5, 6, 7, 8, 9] 9 1 1 1 of_nat
       \<noteq> Inl Out_Of_Bounds_Read
   \<and> set_player_avatar initial_server (Row 1) [1, 2, 3, 4, 5, 6, 7, 8, 9] 9 1 1 1 of_nat =
     Inr (True,
          initial_server
            \<lparr>g_players := (g_players initial_server)
               (1 := (g_players initial_server 1)
                  \<lparr>avatar := 1, w := 8, h := 1, ch := 4, tex_dirty := True\<rparr>),
             heap := (heap initial_server)
               (1 := Some [1, 1, 1, 255, 2, 2, 2, 255, 3, 3, 3, 255, 4, 4, 4, 255,
                           5, 5, 5, 255, 6, 6, 6, 255, 7, 7, 7, 255, 8, 8, 8, 255])\<rparr>)
   \<and> unat (8::u32) = min (unat (9::u32)) 8"
proof -
  have a: "(1::u8) \<noteq> 0" by simp
  have b: "unat (9::u32) * unat (1::u32) * unat (1::u8) \<le> length [1, 2, 3, 4, 5, 6, 7, 8, 9 :: u8]"
    by simp
  from avatar_reads_in_bounds [OF a b, of initial_server "Row 1" 1 of_nat] wide_run a b
  show ?thesis by simp
qed

text \<open>
  C7 as stated, for any channel count, fails at channel count 0: a 1x1 image with 0
  channels is an empty buffer of 1 * 1 * 0 bytes, and the grayscale branch reads its byte 0.
\<close>

theorem avatar_zero_channels_reads_outside:
  "unat (1::u32) * unat (1::u32) * unat (0::u8) \<le> length ([]::u8 list)
   \<and> set_player_avatar initial_server (Row 1) [] 1 1 0 1 of_nat = Inl Out_Of_Bounds_Read"
  by (simp add: set_player_avatar_def Let_def clamp_dim_def config_defs convert_rows.simps
      convert_row.simps read_pixel_def load_def bind_fault_def)

text \<open>
  C8. When the allocation fails (\<open>malloc\<close> returns the null pointer),
  \<open>set_player_avatar\<close> returns false and the state it returns is the state it was given:
  the avatar buffer, the dimensions, the dirty flag and every other field of every player
  are as before.
\<close>

theorem avatar_alloc_failure:
  "set_player_avatar s target_player av_pixels av_w0 av_h0 av_ch 0 junk = Inr (False, s)"
  by (simp add: set_player_avatar_def Let_def)

text \<open>
  C9. When \<open>set_player_avatar\<close> succeeds, the player's avatar pointer is the new block,
  which holds the normalised image; the previous block, if there was one, is released and
  no other block changes; the clamped width and height and channel count 4 are recorded;
  the dirty flag is set; \<open>ip\<close>, \<open>player_id\<close>, \<open>tag\<close>, the position, \<open>connected\<close>,
  \<open>tex\<close> and \<open>tex_inited\<close> keep their values, and so do all other rows and both
  counters.
\<close>

theorem avatar_swapped:
  assumes "set_player_avatar s (Row i) av_pixels av_w0 av_h0 av_ch image_buf_ptr junk = Inr (True, s')"
    and "avatar (g_players s i) \<noteq> image_buf_ptr"
  shows "avatar (g_players s' i) = image_buf_ptr
       \<and> heap s' image_buf_ptr = Some (spec_normalize_avatar av_pixels av_w0 av_h0 av_ch)
       \<and> (avatar (g_players s i) \<noteq> 0 \<longrightarrow> heap s' (avatar (g_players s i)) = None)
       \<and> (\<forall>a. a \<noteq> image_buf_ptr \<and> a \<noteq> avatar (g_players s i) \<longrightarrow> heap s' a = heap s a)
       \<and> unat (w (g_players s' i)) = min (unat av_w0) 8
       \<and> unat (h (g_players s' i)) = min (unat av_h0) 8
       \<and> ch (g_players s' i) = 4
       \<and> tex_dirty (g_players s' i)
       \<and> ip (g_players s' i) = ip (g_players s i)
       \<and> player_id (g_players s' i) = player_id (g_players s i)
       \<and> tag (g_players s' i) = tag (g_players s i)
       \<and> pos_x (g_players s' i) = pos_x (g_players s i)
       \<and> pos_y (g_players s' i) = pos_y (g_players s i)
       \<and> connected (g_players s' i) = connected (g_players s i)
       \<and> tex (g_players s' i) = tex (g_players s i)
       \<and> tex_inited (g_players s' i) = tex_inited (g_players s i)
       \<and> (\<forall>j. j \<noteq> i \<longrightarrow> g_players s' j = g_players s j)
       \<and> g_player_count s' = g_player_count s
       \<and> g_next_player_id s' = g_next_player_id s"
proof -
  from set_player_avatar_True [OF assms(1)] obtain buf hp where
    fr: "free_block ((heap s)(image_buf_ptr := Some buf)) (avatar (g_players s i)) = Inr hp"
    and s': "s' = s\<lparr>g_players := (g_players s)
                      (i := (g_players s i)
                         \<lparr>avatar := image_buf_ptr, w := clamp_dim av_w0 8, h := clamp_dim av_h0 8,
                          ch := 4, tex_dirty := True\<rparr>),
                    heap := hp\<rparr>"
    by blast
  from fr have hp: "hp = (if avatar (g_players s i) = 0 then (heap s)(image_buf_ptr := Some buf)
                          else ((heap s)(image_buf_ptr := Some buf))(avatar (g_players s i) := None))"
    by (rule free_block_Inr)
  have heap_part: "(avatar (g_players s i) \<noteq> 0 \<longrightarrow> heap s' (avatar (g_players s i)) = None)
       \<and> (\<forall>a. a \<noteq> image_buf_ptr \<and> a \<noteq> avatar (g_players s i) \<longrightarrow> heap s' a = heap s a)"
    using hp s' by simp
  have row_part: "unat (w (g_players s' i)) = min (unat av_w0) 8
       \<and> unat (h (g_players s' i)) = min (unat av_h0) 8
       \<and> ch (g_players s' i) = 4
       \<and> tex_dirty (g_players s' i)
       \<and> ip (g_players s' i) = ip (g_players s i)
       \<and> player_id (g_players s' i) = player_id (g_players s i)
       \<and> tag (g_players s' i) = tag (g_players s i)
       \<and> pos_x (g_players s' i) = pos_x (g_players s i)
       \<and> pos_y (g_players s' i) = pos_y (g_players s i)
       \<and> connected (g_players s' i) = connected (g_players s i)
       \<and> tex (g_players s' i) = tex (g_players s i)
       \<and> tex_inited (g_players s' i) = tex_inited (g_players s i)"
    using s' by (simp add: unat_clamp_dim)
  have rest_part: "(\<forall>j. j \<noteq> i \<longrightarrow> g_players s' j = g_players s j)
       \<and> g_player_count s' = g_player_count s
       \<and> g_next_player_id s' = g_next_player_id s"
    using s' by simp
  from set_player_avatar_buffer [OF assms] heap_part row_part rest_part
  show ?thesis by blast
qed

theorem avatar_swapped_witness:
  "set_player_avatar avatar_server (Row 1) [10, 20, 30] 1 1 3 2 of_nat =
     Inr (True,
          avatar_server
            \<lparr>g_players := (g_players avatar_server)
               (1 := (g_players avatar_server 1)
                  \<lparr>avatar := 2, w := 1, h := 1, ch := 4, tex_dirty := True\<rparr>),
             heap := (\<lambda>_. None)(2 := Some [10, 20, 30, 255])\<rparr>)
   \<and> avatar (g_players avatar_server 1) = 1
   \<and> heap avatar_server 1 = Some [0, 0, 0, 255]
   \<and> spec_normalize_avatar [10, 20, 30] 1 1 3 = [10, 20, 30, 255]"
proof -
  have old: "avatar (g_players avatar_server 1) \<noteq> 2" "avatar (g_players avatar_server 1) = 1"
    "heap avatar_server 1 = Some [0, 0, 0, 255]"
    by (simp_all add: avatar_server_def)
  from avatar_swapped [OF swap_run old(1)]
  have "spec_normalize_avatar [10, 20, 30] 1 1 3 = [10, 20, 30, 255]"
    by simp
  with swap_run old show ?thesis by simp
qed

section \<open>Facts about the wire helpers\<close>

lemma recvall_loop_done:
  "len \<le> nrecv \<Longrightarrow> recvall_loop evs buf len nrecv = Some (Inr (ssize_t_of nrecv, buf))"
  by (cases evs) simp_all

lemma recvall_loop_outcome:
  "nrecv \<le> len \<Longrightarrow> len \<le> length buf \<Longrightarrow> \<forall>ev\<in>set evs. test_undisturbed ev \<Longrightarrow>
   recvall_loop evs buf len nrecv = receive_outcome evs buf len nrecv"
proof (induction evs arbitrary: buf nrecv)
  case Nil
  then show ?case
    by (auto simp: receive_outcome_def)
next
  case (Cons ev evs)
  show ?case
  proof (cases "nrecv < len")
    case False
    with Cons.prems have "nrecv = len" by simp
    then show ?thesis
      using Cons.prems by (simp add: receive_outcome_def Let_def)
  next
    case True
    show ?thesis
    proof (cases ev)
      case Recv_Closed
      with True Cons.prems show ?thesis
        by (simp add: receive_outcome_def)
    next
      case (Recv_Error e p)
      with Cons.prems(3) have test: "(errno_after_perror e p = EINTR) = (e = EINTR)"
        by simp
      have ih: "recvall_loop evs buf len nrecv = receive_outcome evs buf len nrecv"
        using Cons.IH [of nrecv buf] Cons.prems by simp
      show ?thesis
      proof (cases "e = EINTR")
        case True
        with Recv_Error \<open>nrecv < len\<close> ih test show ?thesis
          by (simp add: receive_outcome_def)
      next
        case False
        with Recv_Error True Cons.prems(1,2) test show ?thesis
          by (simp add: receive_outcome_def)
      qed
    next
      case (Recv_Bytes bs)
      show ?thesis
      proof (cases "bs = []")
        case True
        with Recv_Bytes \<open>nrecv < len\<close> Cons.prems show ?thesis
          by (simp add: receive_outcome_def)
      next
        case False
        let ?chunk = "take (len - nrecv) bs"
        let ?buf1 = "take nrecv buf @ ?chunk @ drop (nrecv + length ?chunk) buf"
        from False True have pos: "length ?chunk \<noteq> 0" by simp
        have fits: "nrecv + length ?chunk \<le> length buf" "nrecv + length ?chunk \<le> len"
          using True Cons.prems by simp_all
        have len1: "length ?buf1 = length buf" using fits by simp
        from Recv_Bytes True pos fits
        have step: "recvall_loop (ev # evs) buf len nrecv
                      = recvall_loop evs ?buf1 len (nrecv + length ?chunk)"
          by (simp add: write_bytes_def Let_def)
        have ih: "recvall_loop evs ?buf1 len (nrecv + length ?chunk)
                      = receive_outcome evs ?buf1 len (nrecv + length ?chunk)"
          using Cons.IH [of "nrecv + length ?chunk" ?buf1] fits Cons.prems len1 by simp
        have "receive_outcome evs ?buf1 len (nrecv + length ?chunk)
                = receive_outcome (ev # evs) buf len nrecv"
        proof (cases "len - nrecv \<le> length bs")
          case True
          then have c: "nrecv + length ?chunk = len" using \<open>nrecv < len\<close> by simp
          have whole: "take len ?buf1 @ drop len ?buf1 = ?buf1" by (rule append_take_drop_id)
          have "receive_outcome evs ?buf1 len len = Some (Inr (ssize_t_of len, ?buf1))"
            unfolding receive_outcome_def Let_def using whole by simp
          moreover have "receive_outcome (ev # evs) buf len nrecv
                           = Some (Inr (ssize_t_of len, ?buf1))"
            using Recv_Bytes False True c by (simp add: receive_outcome_def Let_def)
          ultimately show ?thesis using c by simp
        next
          case short: False
          then have chunk: "?chunk = bs" by simp
          let ?n = "nrecv + length bs"
          let ?b1 = "take nrecv buf @ bs @ drop ?n buf"
          have n: "?n < len" "nrecv \<le> length buf" "?n \<le> length buf"
            using short Cons.prems by simp_all
          have tk: "take ?n ?b1 = take nrecv buf @ bs" using n by simp
          have dr: "drop m ?b1 = drop m buf" if "?n \<le> m" for m
            using that n by (simp add: add.commute)
          define A where "A = concat (map payload (takeWhile is_data
                                 (filter (\<lambda>ev. \<not> interrupted ev) evs)))"
          define R where "R = dropWhile is_data (filter (\<lambda>ev. \<not> interrupted ev) evs)"
          have cond: "len - ?n \<le> length A \<longleftrightarrow> len - nrecv \<le> length (bs @ A)"
            using n by auto
          have ok: "take ?n ?b1 @ take (len - ?n) A @ drop len ?b1
                  = take nrecv buf @ take (len - nrecv) (bs @ A) @ drop len buf"
            using tk dr [of len] n short by simp
          have bad: "take ?n ?b1 @ A @ drop (?n + length A) ?b1
                  = take nrecv buf @ (bs @ A) @ drop (nrecv + length (bs @ A)) buf"
            using tk dr [of "?n + length A"] by (simp add: add.assoc)
          have lhs: "receive_outcome evs ?b1 len ?n =
                 (if len - ?n \<le> length A
                  then Some (Inr (ssize_t_of len, take ?n ?b1 @ take (len - ?n) A @ drop len ?b1))
                  else (case R of
                          [] \<Rightarrow> None
                        | Recv_Error e p # _ \<Rightarrow>
                            Some (Inr (- 1, take ?n ?b1 @ A @ drop (?n + length A) ?b1))
                        | _ # _ \<Rightarrow>
                            Some (Inr (0, take ?n ?b1 @ A @ drop (?n + length A) ?b1))))"
            unfolding receive_outcome_def Let_def A_def R_def ..
          have rhs: "receive_outcome (ev # evs) buf len nrecv =
                 (if len - nrecv \<le> length (bs @ A)
                  then Some (Inr (ssize_t_of len,
                         take nrecv buf @ take (len - nrecv) (bs @ A) @ drop len buf))
                  else (case R of
                          [] \<Rightarrow> None
                        | Recv_Error e p # _ \<Rightarrow>
                            Some (Inr (- 1, take nrecv buf @ (bs @ A)
                                              @ drop (nrecv + length (bs @ A)) buf))
                        | _ # _ \<Rightarrow>
                            Some (Inr (0, take nrecv buf @ (bs @ A)
                                            @ drop (nrecv + length (bs @ A)) buf))))"
          proof -
            have f: "filter (\<lambda>ev. \<not> interrupted ev) (Recv_Bytes bs # evs)
                       = Recv_Bytes bs # filter (\<lambda>ev. \<not> interrupted ev) evs"
              by simp
            have t: "takeWhile is_data (Recv_Bytes bs # xs) = Recv_Bytes bs # takeWhile is_data xs"
              for xs using False by simp
            have d: "dropWhile is_data (Recv_Bytes bs # xs) = dropWhile is_data xs"
              for xs using False by simp
            show ?thesis
              unfolding receive_outcome_def Let_def A_def R_def Recv_Bytes
              by (simp only: f t d list.map concat.simps payload.simps)
          qed
          have "receive_outcome evs ?b1 len ?n = receive_outcome (ev # evs) buf len nrecv"
            unfolding lhs rhs cond ok bad ..
          then show ?thesis using chunk by simp
        qed
        with step ih show ?thesis by simp
      qed
    qed
  qed
qed

lemma ssize_t_of_small: "n < 2 ^ 63 \<Longrightarrow> ssize_t_of n = int n"
  by (simp add: ssize_t_of_def)

lemma receive_outcome_start:
  "len < 2 ^ 63 \<Longrightarrow> receive_outcome evs buf len 0 = spec_receive_all evs buf len"
  by (simp add: receive_outcome_def spec_receive_all_def ssize_t_of_small Let_def
      cong: list.case_cong recv_result.case_cong)

lemma send_outcome_start:
  "len < 2 ^ 63 \<Longrightarrow> send_outcome evs buf len 0 = spec_send_all evs buf len"
  by (simp add: send_outcome_def spec_send_all_def ssize_t_of_small Let_def
      cong: list.case_cong)

lemma take_more: "take n xs @ take k (drop n xs) = take (n + k) xs"
  by (simp add: take_add)

lemma sendall_loop_outcome:
  "Send_Bytes 0 \<notin> set evs \<Longrightarrow> nsent \<le> len \<Longrightarrow> len \<le> length buf \<Longrightarrow>
   wire = take nsent buf \<Longrightarrow>
   sendall_loop evs err buf len nsent wire = send_outcome evs buf len nsent"
proof (induction evs arbitrary: err nsent wire)
  case Nil
  then show ?case by (auto simp: send_outcome_def)
next
  case (Cons ev evs)
  show ?case
  proof (cases "nsent < len")
    case False
    with Cons.prems have "nsent = len" by simp
    with Cons.prems show ?thesis by (simp add: send_outcome_def Let_def)
  next
    case True
    show ?thesis
    proof (cases ev)
      case (Send_Error e)
      show ?thesis
      proof (cases "e = EINTR")
        case True
        have "sendall_loop evs e buf len nsent wire = send_outcome evs buf len nsent"
          using Cons.IH [of nsent wire e] Cons.prems by simp
        with Send_Error True \<open>nsent < len\<close> show ?thesis
          by (simp add: send_outcome_def)
      next
        case False
        with Send_Error True Cons.prems show ?thesis
          by (simp add: send_outcome_def)
      qed
    next
      case (Send_Bytes k)
      with Cons.prems have k: "0 < k" by auto
      let ?nb = "min k (len - nsent)"
      let ?n = "nsent + ?nb"
      have nb: "?nb \<noteq> 0" "?n \<le> len" "\<not> length buf < ?n"
        using k True Cons.prems by simp_all
      have wire': "wire @ take ?nb (drop nsent buf) = take ?n buf"
        using Cons.prems(4) by (simp only: take_more)
      have nz: "(?nb = 0) = False" using nb(1) by simp
      have step: "sendall_loop (ev # evs) err buf len nsent wire
                    = sendall_loop evs err buf len ?n (take ?n buf)"
        using Send_Bytes True nb(2,3) wire' by (simp add: Let_def nz)
      have ih: "sendall_loop evs err buf len ?n (take ?n buf) = send_outcome evs buf len ?n"
        using Cons.IH [of ?n "take ?n buf" err] Cons.prems nb by simp
      define A where "A = sum_list (map amount (takeWhile is_progress
                                (filter (\<lambda>ev. ev \<noteq> Send_Error EINTR) evs)))"
      define R where "R = dropWhile is_progress (filter (\<lambda>ev. ev \<noteq> Send_Error EINTR) evs)"
      have lhs: "send_outcome evs buf len ?n =
                   (if len - ?n \<le> A then Some (Inr (ssize_t_of len, take len buf))
                    else (case R of [] \<Rightarrow> None
                          | _ # _ \<Rightarrow> Some (Inr (- 1, take (?n + A) buf))))"
        unfolding send_outcome_def Let_def A_def R_def ..
      have rhs: "send_outcome (ev # evs) buf len nsent =
                   (if len - nsent \<le> k + A then Some (Inr (ssize_t_of len, take len buf))
                    else (case R of [] \<Rightarrow> None
                          | _ # _ \<Rightarrow> Some (Inr (- 1, take (nsent + (k + A)) buf))))"
      proof -
        have f: "filter (\<lambda>ev. ev \<noteq> Send_Error EINTR) (Send_Bytes k # evs)
                   = Send_Bytes k # filter (\<lambda>ev. ev \<noteq> Send_Error EINTR) evs"
          by simp
        have t: "takeWhile is_progress (Send_Bytes k # xs) = Send_Bytes k # takeWhile is_progress xs"
          for xs using k by simp
        have d: "dropWhile is_progress (Send_Bytes k # xs) = dropWhile is_progress xs"
          for xs using k by simp
        show ?thesis
          unfolding send_outcome_def Let_def A_def R_def Send_Bytes
          by (simp only: f t d list.map sum_list.Cons amount.simps)
      qed
      have "send_outcome evs buf len ?n = send_outcome (ev # evs) buf len nsent"
      proof (cases "len - nsent \<le> k")
        case True
        then have "?n = len" using \<open>nsent < len\<close> by simp
        with True show ?thesis unfolding lhs rhs by simp
      next
        case False
        then have "?nb = k" by simp
        then show ?thesis unfolding lhs rhs using False
          by (auto simp: add.assoc cong: list.case_cong)
      qed
      with step ih show ?thesis by simp
    qed
  qed
qed

lemma sendall_loop_sound:
  "sendall_loop evs err buf len nsent wire = Some res \<Longrightarrow> nsent \<le> len \<Longrightarrow>
   len \<le> length buf \<Longrightarrow> wire = take nsent buf \<Longrightarrow>
   res = Inr (ssize_t_of len, take len buf) \<or> (\<exists>n<len. res = Inr (- 1, take n buf))"
proof (induction evs arbitrary: err nsent wire)
  case Nil
  then show ?case by (auto split: if_splits)
next
  case (Cons ev evs)
  show ?case
  proof (cases "nsent < len")
    case False
    with Cons.prems show ?thesis by auto
  next
    case True
    show ?thesis
    proof (cases ev)
      case (Send_Error e)
      show ?thesis
      proof (cases "e = EINTR")
        case True
        with Send_Error \<open>nsent < len\<close> Cons.prems(1)
        have "sendall_loop evs e buf len nsent wire = Some res" by simp
        from Cons.IH [OF this Cons.prems(2,3,4)] show ?thesis .
      next
        case False
        with Send_Error True Cons.prems show ?thesis by auto
      qed
    next
      case (Send_Bytes k)
      let ?nb = "min k (len - nsent)"
      let ?n = "nsent + ?nb"
      show ?thesis
      proof (cases "?nb = 0")
        case zero: True
        show ?thesis
        proof (cases "err = EINTR")
          case True
          with zero Send_Bytes \<open>nsent < len\<close> Cons.prems(1)
          have "sendall_loop evs err buf len nsent wire = Some res" by (simp add: Let_def)
          from Cons.IH [OF this Cons.prems(2,3,4)] show ?thesis .
        next
          case False
          with zero Send_Bytes True Cons.prems show ?thesis by (auto simp: Let_def)
        qed
      next
        case False
        have nb: "?n \<le> len" "\<not> length buf < ?n"
          using True Cons.prems by simp_all
        have wire': "wire @ take ?nb (drop nsent buf) = take ?n buf"
          using Cons.prems(4) by (simp only: take_more)
        have nz: "(?nb = 0) = False" using False by simp
        have "sendall_loop (ev # evs) err buf len nsent wire
                = sendall_loop evs err buf len ?n (take ?n buf)"
          using Send_Bytes True nb wire' by (simp add: Let_def nz)
        with Cons.prems(1)
        have "sendall_loop evs err buf len ?n (take ?n buf) = Some res"
          by simp
        from Cons.IH [OF this nb(1) Cons.prems(3)] show ?thesis by simp
      qed
    qed
  qed
qed

lemma spec_receive_all_values:
  "spec_receive_all evs buf len = Some (Inr (r, buf')) \<Longrightarrow> r = int len \<or> r = 0 \<or> r = - 1"
  by (auto simp: spec_receive_all_def Let_def split: if_splits list.splits recv_result.splits)

lemma spec_receive_all_retry:
  "spec_receive_all (Recv_Error EINTR p # evs) buf len = spec_receive_all evs buf len"
  by (simp add: spec_receive_all_def)

lemma recvall_spec:
  "len < 2 ^ 63 \<Longrightarrow> len \<le> length buf \<Longrightarrow> \<forall>ev\<in>set evs. test_undisturbed ev \<Longrightarrow>
   recvall evs buf len = spec_receive_all evs buf len"
  using recvall_loop_outcome [of 0 len buf evs] receive_outcome_start [of len evs buf]
  by (simp add: recvall_def)

text \<open>
  What the two helpers do when no \<open>perror\<close> call disturbs the test of \<open>errno\<close>: for a
  buffer of at least \<open>len\<close> bytes (\<open>len\<close> below \<open>2^63\<close>, as every object size is),
  \<open>recvall\<close> is the three-outcome description and returns no other value; \<open>sendall\<close>
  (which does not call \<open>perror\<close>) returns either \<open>len\<close>, and then exactly the \<open>len\<close>
  bytes of the buffer have been transferred, or -1, and then fewer than \<open>len\<close> have; and
  when no \<open>send\<close> returns 0 it is the description of \<open>send_all\<close>.
\<close>

lemma helpers_with_quiet_perror:
  assumes "len < 2 ^ 63" and "len \<le> length buf" and "\<forall>ev\<in>set evs. test_undisturbed ev"
  shows "recvall evs buf len = spec_receive_all evs buf len
       \<and> (\<forall>r buf'. recvall evs buf len = Some (Inr (r, buf')) \<longrightarrow> r = int len \<or> r = 0 \<or> r = - 1)
       \<and> (\<forall>res. sendall sevs err buf len = Some res \<longrightarrow>
             res = Inr (int len, take len buf) \<or> (\<exists>n<len. res = Inr (- 1, take n buf)))
       \<and> (Send_Bytes 0 \<notin> set sevs \<longrightarrow> sendall sevs err buf len = spec_send_all sevs buf len)"
proof (intro conjI)
  show spec: "recvall evs buf len = spec_receive_all evs buf len"
    using assms by (rule recvall_spec)
  show "\<forall>r buf'. recvall evs buf len = Some (Inr (r, buf')) \<longrightarrow> r = int len \<or> r = 0 \<or> r = - 1"
    unfolding spec using spec_receive_all_values by blast
  show "\<forall>res. sendall sevs err buf len = Some res \<longrightarrow>
             res = Inr (int len, take len buf) \<or> (\<exists>n<len. res = Inr (- 1, take n buf))"
    using sendall_loop_sound [of sevs err buf len 0 "[]"] assms(1,2)
    by (simp add: sendall_def ssize_t_of_small)
  show "Send_Bytes 0 \<notin> set sevs \<longrightarrow> sendall sevs err buf len = spec_send_all sevs buf len"
    using sendall_loop_outcome [of sevs 0 len buf "[]" err] send_outcome_start [of len sevs buf]
      assms(1,2)
    by (simp add: sendall_def)
qed

lemmas wire_eval =
  recvall_def sendall_def write_bytes_def ssize_t_of_def errno_after_perror_def Let_def

section \<open>Claims about the wire helpers\<close>

text \<open>
  C6. The claim: an interrupted (\<open>EINTR\<close>) transfer is retried transparently and never
  surfaced, and \<open>recvall\<close> returns -1 only on a failure that is not an interruption.
  What the code does when a 4-byte read receives 2 bytes, is then interrupted, and the
  \<open>perror\<close> call on line 34 changes \<open>errno\<close> before the test on line 37: it returns -1
  with only the first 2 bytes stored, although the remaining bytes were about to arrive.
  The description of \<open>receive_all\<close> gives 4 and all four bytes for the same script, and
  so does the code when \<open>perror\<close> leaves \<open>errno\<close> alone.
\<close>

theorem recvall_surfaces_interruption:
  "recvall [Recv_Bytes [1, 2], Recv_Error EINTR (Some E_OTHER), Recv_Bytes [3, 4, 5]]
     [5, 6, 7, 8, 9] 4 = Some (Inr (- 1, [1, 2, 7, 8, 9]))
   \<and> spec_receive_all [Recv_Bytes [1, 2], Recv_Error EINTR (Some E_OTHER), Recv_Bytes [3, 4, 5]]
       [5, 6, 7, 8, 9] 4 = Some (Inr (4, [1, 2, 3, 4, 9]))
   \<and> recvall [Recv_Bytes [1, 2], Recv_Error EINTR None, Recv_Bytes [3, 4, 5]]
       [5, 6, 7, 8, 9] 4 = Some (Inr (4, [1, 2, 3, 4, 9]))"
  by (simp add: wire_eval spec_receive_all_def)

end
